theory Spec2Isabelle
  imports Main
begin

section \<open>C strings and the C library functions that options.c calls\<close>

text \<open>
  A C string is modelled by the list of its characters before the terminating NUL, so
  \<open>*ptr == '\0'\<close> is \<open>ptr = []\<close> and \<open>ptr[1]\<close> is non-NUL exactly when the list has a
  second element.  A pointer that may be \<open>NULL\<close> is an \<open>option\<close>.

  \<open>isspace\<close>, \<open>tolower\<close>, \<open>strcasecmp\<close> and \<open>strncasecmp\<close> are the C library's, in the
  "C" locale.  Of the two comparisons only the sign is specified by POSIX; options.c
  only tests them against zero.
\<close>

definition isspace :: "char \<Rightarrow> bool" where
  "isspace c =
     (c = CHR '' '' \<or> c = CHR 0x09 \<or> c = CHR 0x0A \<or> c = CHR 0x0B \<or> c = CHR 0x0C \<or> c = CHR 0x0D)"

definition tolower :: "char \<Rightarrow> char" where
  "tolower c =
     (case map_of (zip ''ABCDEFGHIJKLMNOPQRSTUVWXYZ'' ''abcdefghijklmnopqrstuvwxyz'') c of
        None \<Rightarrow> c
      | Some l \<Rightarrow> l)"

fun strcasecmp :: "string \<Rightarrow> string \<Rightarrow> int" where
  "strcasecmp [] [] = 0"
| "strcasecmp [] (b # t) = - 1"
| "strcasecmp (a # s) [] = 1"
| "strcasecmp (a # s) (b # t) =
     (if tolower a = tolower b then strcasecmp s t
      else int (of_char (tolower a)) - int (of_char (tolower b)))"

definition strncasecmp :: "string \<Rightarrow> string \<Rightarrow> nat \<Rightarrow> int" where
  "strncasecmp s t n = strcasecmp (take n s) (take n t)"

section \<open>The option array\<close>

text \<open>
  \<open>cups_option_t\<close> is the struct of cups.h: two owned strings.  The array \<open>*options\<close> is
  the list of the slots of its memory block; the caller passes the number of slots in
  use separately, as \<open>num_options\<close>.  The slots at index \<open>num_options\<close> and above are not
  part of the store: \<open>cupsRemoveOption\<close> leaves a stale slot behind and \<open>realloc\<close> in
  \<open>cupsAddOption\<close> cuts the block to \<open>num_options + 1\<close> slots.

  Reading a slot outside the block is undefined in C; the model returns
  \<open>Inl Out_Of_Bounds\<close> there.  \<open>malloc\<close>, \<open>realloc\<close> and \<open>strdup\<close> may fail: the
  \<open>allocator\<close> lists the outcomes of the coming requests in order, and every request
  after the end of the list succeeds.  \<open>_cupsStrAlloc\<close> and \<open>_cupsStrFree\<close> belong to the
  string pool outside this file; they are taken to copy and release a string.
  \<open>num_options\<close> and the nesting depth are C \<open>int\<close>s, modelled as \<open>int\<close>: the model does
  not cover arrays of \<open>INT_MAX\<close> entries.
\<close>

record cups_option_t =
  name :: string
  "value" :: string

datatype fault = Out_Of_Bounds

type_synonym allocator = "bool list"

fun alloc :: "allocator \<Rightarrow> bool \<times> allocator" where
  "alloc [] = (True, [])"
| "alloc (ok # rest) = (ok, rest)"

text \<open>
  The search loop of \<open>cupsAddOption\<close>:
  \<^verbatim>\<open>for (i = 0, temp = *options; i < num_options; i ++, temp ++)
       if (!strcasecmp(temp->name, name)) break;\<close>
  \<open>add_scan nm k temp\<close> runs it with \<open>k\<close> iterations to go from the slot \<open>temp\<close> and
  returns how far \<open>i\<close> advanced.
\<close>

fun add_scan :: "string \<Rightarrow> nat \<Rightarrow> cups_option_t list \<Rightarrow> fault + nat" where
  "add_scan nm 0 temp = Inr 0"
| "add_scan nm (Suc k) [] = Inl Out_Of_Bounds"
| "add_scan nm (Suc k) (t # temp) =
     (if strcasecmp (name t) nm = 0 then Inr 0
      else (case add_scan nm k temp of Inl f \<Rightarrow> Inl f | Inr i \<Rightarrow> Inr (Suc i)))"

fun cupsAddOption ::
  "string option \<Rightarrow> string option \<Rightarrow> int \<Rightarrow> cups_option_t list option \<Rightarrow> allocator
     \<Rightarrow> fault + (int \<times> cups_option_t list option \<times> allocator)" where
  "cupsAddOption (Some nm) (Some v) num_options (Some opts) heap =
     (if nm = [] \<or> num_options < 0 then Inr (num_options, Some opts, heap)
      else (case add_scan nm (nat num_options) opts of
              Inl f \<Rightarrow> Inl f
            | Inr i \<Rightarrow>
                if int i \<ge> num_options then
                  (case alloc heap of
                     (False, heap') \<Rightarrow> Inr (0, Some opts, heap')
                   | (True, heap') \<Rightarrow>
                       Inr (num_options + 1,
                            Some (take (nat num_options) opts @ [\<lparr>name = nm, value = v\<rparr>]),
                            heap'))
                else Inr (num_options, Some (opts[i := (opts ! i)\<lparr>value := v\<rparr>]), heap)))"
| "cupsAddOption nm v num_options options heap = Inr (num_options, options, heap)"

text \<open>
  \<open>cupsGetOption\<close>: the first slot among the \<open>num_options\<close> in use whose name matches.
  It takes the array itself, not a pointer to it; \<open>None\<close> is the array pointer \<open>NULL\<close>.
\<close>

fun get_scan :: "string \<Rightarrow> nat \<Rightarrow> cups_option_t list \<Rightarrow> fault + string option" where
  "get_scan nm 0 opts = Inr None"
| "get_scan nm (Suc k) [] = Inl Out_Of_Bounds"
| "get_scan nm (Suc k) (t # opts) =
     (if strcasecmp (name t) nm = 0 then Inr (Some (value t)) else get_scan nm k opts)"

fun cupsGetOption ::
  "string option \<Rightarrow> int \<Rightarrow> cups_option_t list option \<Rightarrow> fault + string option" where
  "cupsGetOption (Some nm) num_options (Some opts) =
     (if num_options \<le> 0 then Inr None else get_scan nm (nat num_options) opts)"
| "cupsGetOption nm num_options options = Inr None"

text \<open>
  The search loop of \<open>cupsRemoveOption\<close> counts \<open>i\<close> down from \<open>num_options\<close>:
  \<^verbatim>\<open>for (i = num_options, option = *options; i > 0; i --, option ++)
       if (!strcasecmp(name, option->name)) break;\<close>
  \<open>remove_scan\<close> returns the final \<open>i\<close>: 0 when no slot matches, otherwise the number of
  slots from the matching one to the end of the store.
\<close>

fun remove_scan :: "string \<Rightarrow> nat \<Rightarrow> cups_option_t list \<Rightarrow> fault + nat" where
  "remove_scan nm 0 option = Inr 0"
| "remove_scan nm (Suc i) [] = Inl Out_Of_Bounds"
| "remove_scan nm (Suc i) (opt # option) =
     (if strcasecmp nm (name opt) = 0 then Inr (Suc i) else remove_scan nm i option)"

text \<open>
  \<open>memmove(option, option + 1, i * sizeof(cups_option_t))\<close> with \<open>option\<close> the slot at
  index \<open>k\<close>: the \<open>i\<close> slots after \<open>k\<close> move one place down, the rest of the block keeps
  its contents.
\<close>

definition memmove_down :: "nat \<Rightarrow> nat \<Rightarrow> 'a list \<Rightarrow> fault + 'a list" where
  "memmove_down k i xs =
     (if k + 1 + i > length xs then Inl Out_Of_Bounds
      else Inr (take k xs @ take i (drop (k + 1) xs) @ drop (k + i) xs))"

fun cupsRemoveOption ::
  "string option \<Rightarrow> int \<Rightarrow> cups_option_t list option
     \<Rightarrow> fault + (int \<times> cups_option_t list option)" where
  "cupsRemoveOption (Some nm) num_options (Some opts) =
     (if num_options < 1 then Inr (num_options, Some opts)
      else (case remove_scan nm (nat num_options) opts of
              Inl f \<Rightarrow> Inl f
            | Inr i \<Rightarrow>
                if i \<noteq> 0 then
                  (if i - 1 > 0 then
                     (case memmove_down (nat num_options - i) (i - 1) opts of
                        Inl f \<Rightarrow> Inl f
                      | Inr opts' \<Rightarrow> Inr (num_options - 1, Some opts'))
                   else Inr (num_options - 1, Some opts))
                else Inr (num_options, Some opts)))"
| "cupsRemoveOption nm num_options options = Inr (num_options, options)"

section \<open>The parser\<close>

text \<open>
  \<open>cupsParseOptions\<close> works on a private copy of the argument and splits it in place by
  writing NULs behind the cursor \<open>ptr\<close>.  The model keeps the text from \<open>ptr\<close> to the
  end of the copy; \<open>_cups_strcpy(ptr, ptr + 1)\<close> removes the head of that text.  A
  scanning loop returns the characters it leaves between its start and the NUL that
  ends the token, and the text at the cursor where the loop exits.

  Quoted value, entered with \<open>ptr\<close> after the opening quote:
  \<^verbatim>\<open>while (*ptr != quote && *ptr)
     { if (*ptr == '\\' && ptr[1]) _cups_strcpy(ptr, ptr + 1);  ptr ++; }\<close>
\<close>

fun quoted_scan :: "char \<Rightarrow> string \<Rightarrow> string \<times> string" where
  "quoted_scan quote [] = ([], [])"
| "quoted_scan quote (c # p) =
     (if c = quote then ([], c # p)
      else if c = CHR 0x5C \<and> p \<noteq> [] then
        (case quoted_scan quote (tl p) of (v, r) \<Rightarrow> (hd p # v, r))
      else (case quoted_scan quote p of (v, r) \<Rightarrow> (c # v, r)))"

text \<open>
  Collection value, entered with \<open>ptr\<close> on the opening brace and \<open>depth = 1\<close>:
  \<^verbatim>\<open>for (depth = 1; *ptr; ptr ++)
       if (*ptr == '{') depth ++;
       else if (*ptr == '}')
       { depth --; if (!depth) { ptr ++; if (*ptr != ',') break; } }
       else if (*ptr == '\\' && ptr[1]) _cups_strcpy(ptr, ptr + 1);\<close>
  When the depth reaches 0 and a comma follows, the increment of the \<open>for\<close> steps over
  the comma.
\<close>

fun collection_scan :: "int \<Rightarrow> string \<Rightarrow> string \<times> string" where
  "collection_scan depth [] = ([], [])"
| "collection_scan depth (c # p) =
     (if c = CHR ''{'' then
        (case collection_scan (depth + 1) p of (v, r) \<Rightarrow> (c # v, r))
      else if c = CHR ''}'' then
        (if depth - 1 = 0 then
           (if p = [] \<or> hd p \<noteq> CHR '','' then ([c], p)
            else (case collection_scan (depth - 1) (tl p) of (v, r) \<Rightarrow> (c # hd p # v, r)))
         else (case collection_scan (depth - 1) p of (v, r) \<Rightarrow> (c # v, r)))
      else if c = CHR 0x5C \<and> p \<noteq> [] then
        (case collection_scan depth (tl p) of (v, r) \<Rightarrow> (hd p # v, r))
      else (case collection_scan depth p of (v, r) \<Rightarrow> (c # v, r)))"

text \<open>
  Space-delimited value:
  \<^verbatim>\<open>while (!isspace(*ptr & 255) && *ptr)
     { if (*ptr == '\\' && ptr[1]) _cups_strcpy(ptr, ptr + 1);  ptr ++; }\<close>
\<close>

fun bare_scan :: "string \<Rightarrow> string \<times> string" where
  "bare_scan [] = ([], [])"
| "bare_scan (c # p) =
     (if isspace c then ([], c # p)
      else if c = CHR 0x5C \<and> p \<noteq> [] then
        (case bare_scan (tl p) of (v, r) \<Rightarrow> (hd p # v, r))
      else (case bare_scan p of (v, r) \<Rightarrow> (c # v, r)))"

text \<open>
  One turn of the main loop up to its call of \<open>cupsAddOption\<close>, entered with \<open>*ptr\<close>
  not NUL: \<open>None\<close> is the \<open>break\<close> on an empty name, \<open>Some (nm, v, ptr')\<close> gives the
  two strings passed to \<open>cupsAddOption\<close> and the cursor for the next turn.  The loops
  that only advance \<open>ptr\<close> are \<open>takeWhile\<close>/\<open>dropWhile\<close>; \<open>*ptr++ = '\0'\<close> on a character
  that is present is \<open>tl\<close>.
\<close>

definition next_option :: "string \<Rightarrow> (string \<times> string \<times> string) option" where
  "next_option ptr =
     (let nm = takeWhile (\<lambda>c. \<not> isspace c \<and> c \<noteq> CHR ''='') ptr;
          ptr1 = dropWhile (\<lambda>c. \<not> isspace c \<and> c \<noteq> CHR ''='') ptr
      in if nm = [] then None
         else
           let ptr2 = dropWhile isspace ptr1
           in if ptr2 = [] \<or> hd ptr2 \<noteq> CHR ''='' then
                (if strncasecmp nm ''no'' 2 = 0 then Some (drop 2 nm, ''false'', ptr2)
                 else Some (nm, ''true'', ptr2))
              else
                let ptr3 = tl ptr2
                in if ptr3 \<noteq> [] \<and> (hd ptr3 = CHR 0x27 \<or> hd ptr3 = CHR 0x22) then
                     (case quoted_scan (hd ptr3) (tl ptr3) of
                        (v, ptr4) \<Rightarrow>
                          Some (nm, v, dropWhile isspace (if ptr4 \<noteq> [] then tl ptr4 else ptr4)))
                   else if ptr3 \<noteq> [] \<and> hd ptr3 = CHR ''{'' then
                     (case collection_scan 1 ptr3 of
                        (v, ptr4) \<Rightarrow>
                          Some (nm, v, dropWhile isspace (if ptr4 \<noteq> [] then tl ptr4 else ptr4)))
                   else
                     (case bare_scan ptr3 of
                        (v, ptr4) \<Rightarrow> Some (nm, v, dropWhile isspace ptr4)))"

lemma quoted_scan_length: "length (snd (quoted_scan q p)) \<le> length p"
  by (induction q p rule: quoted_scan.induct) (auto split: prod.splits)

lemma collection_scan_length: "length (snd (collection_scan d p)) \<le> length p"
  by (induction d p rule: collection_scan.induct) (auto split: prod.splits)

lemma bare_scan_length: "length (snd (bare_scan p)) \<le> length p"
  by (induction p rule: bare_scan.induct) (auto split: prod.splits)

lemma name_scan_length:
  "takeWhile P ptr \<noteq> [] \<Longrightarrow> length (dropWhile P ptr) < length ptr"
  by (cases ptr) (auto simp: le_imp_less_Suc length_dropWhile_le split: if_splits)

lemma next_option_shorter:
  assumes "next_option ptr = Some (nm, v, ptr')"
  shows "length ptr' < length ptr"
proof -
  let ?P = "\<lambda>c. \<not> isspace c \<and> c \<noteq> CHR ''=''"
  let ?p1 = "dropWhile ?P ptr"
  let ?p2 = "dropWhile isspace ?p1"
  from assms have ne: "takeWhile ?P ptr \<noteq> []"
    by (auto simp: next_option_def Let_def split: if_splits)
  then have l1: "length ?p1 < length ptr" by (rule name_scan_length)
  have l2: "length ?p2 \<le> length ?p1" by (rule length_dropWhile_le)
  have q: "length (dropWhile isspace (snd (quoted_scan c (tl (tl ?p2))))) \<le> length ?p2" for c
    using quoted_scan_length [of c "tl (tl ?p2)"]
      length_dropWhile_le [of isspace "snd (quoted_scan c (tl (tl ?p2)))"] by simp
  have q': "length (dropWhile isspace (tl (snd (quoted_scan c (tl (tl ?p2)))))) \<le> length ?p2" for c
    using quoted_scan_length [of c "tl (tl ?p2)"]
      length_dropWhile_le [of isspace "tl (snd (quoted_scan c (tl (tl ?p2))))"] by simp
  have c: "length (dropWhile isspace (snd (collection_scan 1 (tl ?p2)))) \<le> length ?p2"
    using collection_scan_length [of 1 "tl ?p2"]
      length_dropWhile_le [of isspace "snd (collection_scan 1 (tl ?p2))"] by simp
  have c': "length (dropWhile isspace (tl (snd (collection_scan 1 (tl ?p2))))) \<le> length ?p2"
    using collection_scan_length [of 1 "tl ?p2"]
      length_dropWhile_le [of isspace "tl (snd (collection_scan 1 (tl ?p2)))"] by simp
  have b: "length (dropWhile isspace (snd (bare_scan (tl ?p2)))) \<le> length ?p2"
    using bare_scan_length [of "tl ?p2"]
      length_dropWhile_le [of isspace "snd (bare_scan (tl ?p2))"] by simp
  from assms have "length ptr' \<le> length ?p2"
    using q q' c c' b
    by (auto simp: next_option_def Let_def split_beta split: if_splits)
  with l1 l2 show ?thesis by linarith
qed

text \<open>
  The main loop \<open>while (*ptr != '\0') { ... }\<close>.
\<close>

function parse_loop ::
  "string \<Rightarrow> int \<Rightarrow> cups_option_t list option \<Rightarrow> allocator
     \<Rightarrow> fault + (int \<times> cups_option_t list option \<times> allocator)" where
  "parse_loop ptr num_options options heap =
     (if ptr = [] then Inr (num_options, options, heap)
      else (case next_option ptr of
              None \<Rightarrow> Inr (num_options, options, heap)
            | Some (nm, v, ptr') \<Rightarrow>
                (case cupsAddOption (Some nm) (Some v) num_options options heap of
                   Inl f \<Rightarrow> Inl f
                 | Inr (num_options', options', heap') \<Rightarrow>
                     parse_loop ptr' num_options' options' heap')))"
  by pat_completeness auto
termination
  by (relation "measure (\<lambda>(ptr, num_options, options, heap). length ptr)")
     (auto dest: next_option_shorter)

fun cupsParseOptions ::
  "string option \<Rightarrow> int \<Rightarrow> cups_option_t list option \<Rightarrow> allocator
     \<Rightarrow> fault + (int \<times> cups_option_t list option \<times> allocator)" where
  "cupsParseOptions None num_options options heap = Inr (num_options, options, heap)"
| "cupsParseOptions (Some arg) num_options options heap =
     (if options = None \<or> num_options < 0 then Inr (0, options, heap)
      else (case alloc heap of
              (False, heap') \<Rightarrow> Inr (num_options, options, heap')
            | (True, heap') \<Rightarrow> parse_loop (dropWhile isspace arg) num_options options heap'))"

declare parse_loop.simps [simp del]

section \<open>Terms of the specification\<close>

text \<open>
  The store is the part of the array in use: its first \<open>num_options\<close> slots.
\<close>

definition entries :: "int \<Rightarrow> cups_option_t list \<Rightarrow> cups_option_t list" where
  "entries num_options opts = take (nat num_options) opts"

text \<open>
  Names that are pairwise different under the comparison the code uses.
\<close>

fun names_distinct :: "string list \<Rightarrow> bool" where
  "names_distinct [] = True"
| "names_distinct (s # ss) = ((\<forall>t \<in> set ss. strcasecmp s t \<noteq> 0) \<and> names_distinct ss)"

text \<open>
  What the specification says \<open>remove\<close> does to the sequence of entries: the first entry
  whose name matches goes, the later ones move up in order.
\<close>

fun remove_first :: "string \<Rightarrow> cups_option_t list \<Rightarrow> cups_option_t list" where
  "remove_first nm [] = []"
| "remove_first nm (t # ts) = (if strcasecmp nm (name t) = 0 then ts else t # remove_first nm ts)"

definition store_inv :: "int \<Rightarrow> cups_option_t list \<Rightarrow> bool" where
  "store_inv num_options opts =
     (0 \<le> num_options \<and> nat num_options \<le> length opts \<and>
      names_distinct (map name (entries num_options opts)))"

text \<open>
  The stores a caller can build: it starts with no options (\<open>num_options = 0\<close>, an empty
  array) and passes the count and the array that one call returned to the next call.
  The other arguments, absent ones included, and the outcomes of the allocations are
  arbitrary.
\<close>

inductive reachable :: "int \<Rightarrow> cups_option_t list \<Rightarrow> bool" where
  reachable_empty: "reachable 0 []"
| reachable_add:
    "reachable n opts \<Longrightarrow> cupsAddOption nm v n (Some opts) heap = Inr (n', Some opts', heap') \<Longrightarrow>
       reachable n' opts'"
| reachable_remove:
    "reachable n opts \<Longrightarrow> cupsRemoveOption nm n (Some opts) = Inr (n', Some opts') \<Longrightarrow>
       reachable n' opts'"
| reachable_parse:
    "reachable n opts \<Longrightarrow> cupsParseOptions arg n (Some opts) heap = Inr (n', Some opts', heap') \<Longrightarrow>
       reachable n' opts'"

text \<open>
  The text of a quoted value as the specification reads it: a sequence of characters
  that stand for themselves and of escaped characters, each written as a backslash and
  the character.  A character that stands for itself is neither the quote nor a
  backslash.
\<close>

datatype qchar = Plain char | Escaped char

fun encode :: "qchar \<Rightarrow> string" where
  "encode (Plain c) = [c]"
| "encode (Escaped c) = [CHR 0x5C, c]"

fun decode :: "qchar \<Rightarrow> char" where
  "decode (Plain c) = c"
| "decode (Escaped c) = c"

fun plain_ok :: "char \<Rightarrow> qchar \<Rightarrow> bool" where
  "plain_ok quote (Plain c) = (c \<noteq> quote \<and> c \<noteq> CHR 0x5C)"
| "plain_ok quote (Escaped c) = True"

section \<open>Properties of the model\<close>

subsection \<open>Comparison of names\<close>

lemma strcasecmp_zero_iff: "strcasecmp s t = 0 \<longleftrightarrow> map tolower s = map tolower t"
  by (induction s t rule: strcasecmp.induct) auto

lemma strcasecmp_refl: "strcasecmp s s = 0"
  by (simp add: strcasecmp_zero_iff)

lemma tolower_n: "tolower c = CHR ''n'' \<longleftrightarrow> c = CHR ''n'' \<or> c = CHR ''N''"
  by (auto simp: tolower_def split: if_splits)

lemma tolower_o: "tolower c = CHR ''o'' \<longleftrightarrow> c = CHR ''o'' \<or> c = CHR ''O''"
  by (auto simp: tolower_def split: if_splits)

subsection \<open>The search loops\<close>

lemma add_scan_Inr:
  "add_scan nm k temp = Inr i \<Longrightarrow>
     i \<le> k \<and> i \<le> length temp \<and> (\<forall>t \<in> set (take i temp). strcasecmp (name t) nm \<noteq> 0) \<and>
     (i < k \<longrightarrow> i < length temp \<and> strcasecmp (name (temp ! i)) nm = 0)"
proof (induction nm k temp arbitrary: i rule: add_scan.induct)
  case (1 nm temp)
  then show ?case by simp
next
  case (2 nm k)
  then show ?case by simp
next
  case (3 nm k t temp)
  show ?case
  proof (cases "strcasecmp (name t) nm = 0")
    case True
    with 3 show ?thesis by simp
  next
    case False
    with "3.prems" obtain j where j: "add_scan nm k temp = Inr j" "i = Suc j"
      by (auto split: sum.splits)
    from "3.IH" [OF False j(1)] False j(2) show ?thesis by simp
  qed
qed

lemma add_scan_no_match:
  "k \<le> length temp \<Longrightarrow> \<forall>t \<in> set (take k temp). strcasecmp (name t) nm \<noteq> 0 \<Longrightarrow>
     add_scan nm k temp = Inr k"
  by (induction nm k temp rule: add_scan.induct) auto

lemma add_scan_match:
  "i < k \<Longrightarrow> i < length temp \<Longrightarrow> strcasecmp (name (temp ! i)) nm = 0 \<Longrightarrow>
   \<forall>t \<in> set (take i temp). strcasecmp (name t) nm \<noteq> 0 \<Longrightarrow> add_scan nm k temp = Inr i"
proof (induction nm k temp arbitrary: i rule: add_scan.induct)
  case (3 nm k t temp)
  then show ?case by (cases i) auto
qed auto

lemma add_scan_total:
  "k \<le> length opts \<Longrightarrow> \<exists>i. add_scan nm k opts = Inr i"
  by (induction nm k opts rule: add_scan.induct) auto

lemma remove_scan_Inr:
  "remove_scan nm k opts = Inr i \<Longrightarrow>
     i \<le> k \<and> k - i \<le> length opts \<and>
     (\<forall>t \<in> set (take (k - i) opts). strcasecmp nm (name t) \<noteq> 0) \<and>
     (i \<noteq> 0 \<longrightarrow> k - i < length opts \<and> strcasecmp nm (name (opts ! (k - i))) = 0)"
proof (induction nm k opts rule: remove_scan.induct)
  case (1 nm option)
  then show ?case by simp
next
  case (2 nm i)
  then show ?case by simp
next
  case (3 nm k opt option)
  show ?case
  proof (cases "strcasecmp nm (name opt) = 0")
    case True
    with 3 show ?thesis by auto
  next
    case False
    with "3.prems" have r: "remove_scan nm k option = Inr i" by simp
    from "3.IH" [OF False r] False show ?thesis
      by (auto simp: Suc_diff_le)
  qed
qed

lemma remove_scan_no_match:
  "k \<le> length opts \<Longrightarrow> \<forall>t \<in> set (take k opts). strcasecmp nm (name t) \<noteq> 0 \<Longrightarrow>
     remove_scan nm k opts = Inr 0"
  by (induction nm k opts rule: remove_scan.induct) auto

lemma remove_scan_total:
  "k \<le> length opts \<Longrightarrow> \<exists>i. remove_scan nm k opts = Inr i"
  by (induction nm k opts rule: remove_scan.induct) auto

lemma get_scan_first:
  "i < k \<Longrightarrow> i < length opts \<Longrightarrow> strcasecmp (name (opts ! i)) nm = 0 \<Longrightarrow>
   \<forall>t \<in> set (take i opts). strcasecmp (name t) nm \<noteq> 0 \<Longrightarrow>
     get_scan nm k opts = Inr (Some (value (opts ! i)))"
proof (induction nm k opts arbitrary: i rule: get_scan.induct)
  case (3 nm k t opts)
  then show ?case by (cases i) auto
qed auto

subsection \<open>Removing an option\<close>

lemma remove_first_take_drop:
  "k < length ts \<Longrightarrow> strcasecmp nm (name (ts ! k)) = 0 \<Longrightarrow>
   \<forall>t \<in> set (take k ts). strcasecmp nm (name t) \<noteq> 0 \<Longrightarrow>
   remove_first nm ts = take k ts @ drop (Suc k) ts"
proof (induction ts arbitrary: k)
  case Nil
  then show ?case by simp
next
  case (Cons t ts)
  then show ?case by (cases k) auto
qed

lemma set_remove_first: "set (remove_first nm ts) \<subseteq> set ts"
  by (induction ts) auto

lemma memmove_down_entries:
  assumes "k + 1 + i \<le> length xs"
  shows "\<exists>ys. memmove_down k i xs = Inr ys \<and> length ys = length xs \<and>
           take (k + i) ys = take k xs @ take i (drop (Suc k) xs)"
  using assms by (simp add: memmove_down_def)

lemma cupsRemoveOption_found:
  assumes wf: "0 \<le> num_options" "nat num_options \<le> length opts"
    and found: "\<exists>t \<in> set (entries num_options opts). strcasecmp nm (name t) = 0"
  shows "\<exists>opts'. cupsRemoveOption (Some nm) num_options (Some opts) = Inr (num_options - 1, Some opts') \<and>
            length opts' = length opts \<and>
            entries (num_options - 1) opts' = remove_first nm (entries num_options opts)"
proof -
  let ?n = "nat num_options"
  from wf(2) obtain i where i: "remove_scan nm ?n opts = Inr i"
    using remove_scan_total by blast
  note f = remove_scan_Inr [OF i]
  have "i \<noteq> 0"
  proof
    assume "i = 0"
    with f found show False by (simp add: entries_def)
  qed
  with f have k: "?n - i < length opts" "strcasecmp nm (name (opts ! (?n - i))) = 0"
    and le: "i \<le> ?n" and nomatch: "\<forall>t \<in> set (take (?n - i) opts). strcasecmp nm (name t) \<noteq> 0"
    by simp_all
  let ?k = "?n - i"
  have pos: "1 \<le> num_options" using \<open>i \<noteq> 0\<close> le by linarith
  have kn: "?k < ?n" using \<open>i \<noteq> 0\<close> le by linarith
  have rf: "remove_first nm (take ?n opts) = take ?k opts @ take (i - 1) (drop (Suc ?k) opts)"
  proof -
    have "remove_first nm (take ?n opts) = take ?k (take ?n opts) @ drop (Suc ?k) (take ?n opts)"
    proof (rule remove_first_take_drop)
      show "?k < length (take ?n opts)" using kn wf(2) by simp
      show "strcasecmp nm (name (take ?n opts ! ?k)) = 0" using kn k(2) by simp
      show "\<forall>t \<in> set (take ?k (take ?n opts)). strcasecmp nm (name t) \<noteq> 0"
        using nomatch kn by (simp add: min_def)
    qed
    moreover have "take ?k (take ?n opts) = take ?k opts" using kn by (simp add: min_def)
    moreover have "drop (Suc ?k) (take ?n opts) = take (i - 1) (drop (Suc ?k) opts)"
    proof -
      have "?n - Suc ?k = i - 1" using le \<open>i \<noteq> 0\<close> by linarith
      then show ?thesis by (simp add: drop_take)
    qed
    ultimately show ?thesis by simp
  qed
  show ?thesis
  proof (cases "i - 1 > 0")
    case True
    have "?k + 1 + (i - 1) \<le> length opts" using le wf(2) \<open>i \<noteq> 0\<close> by linarith
    from memmove_down_entries [OF this] obtain ys where ys:
      "memmove_down ?k (i - 1) opts = Inr ys" "length ys = length opts"
      "take (?k + (i - 1)) ys = take ?k opts @ take (i - 1) (drop (Suc ?k) opts)"
      by blast
    have n1: "nat (num_options - 1) = ?k + (i - 1)" using le \<open>i \<noteq> 0\<close> pos by linarith
    have "cupsRemoveOption (Some nm) num_options (Some opts) = Inr (num_options - 1, Some ys)"
      using i \<open>i \<noteq> 0\<close> True ys(1) pos by simp
    moreover have "entries (num_options - 1) ys = remove_first nm (entries num_options opts)"
      using ys(3) rf n1 by (simp add: entries_def)
    ultimately show ?thesis using ys(2) by blast
  next
    case False
    with \<open>i \<noteq> 0\<close> have i1: "i = 1" by linarith
    have "cupsRemoveOption (Some nm) num_options (Some opts) = Inr (num_options - 1, Some opts)"
      using i i1 pos by simp
    moreover have "entries (num_options - 1) opts = remove_first nm (entries num_options opts)"
    proof -
      have "nat (num_options - 1) = ?k" using i1 pos by linarith
      then show ?thesis using rf i1 by (simp add: entries_def)
    qed
    ultimately show ?thesis by blast
  qed
qed

lemma cupsRemoveOption_not_found:
  assumes wf: "nat num_options \<le> length opts"
    and nf: "\<forall>t \<in> set (entries num_options opts). strcasecmp nm (name t) \<noteq> 0"
  shows "cupsRemoveOption (Some nm) num_options (Some opts) = Inr (num_options, Some opts)"
  using remove_scan_no_match [OF wf, of nm] nf by (simp add: entries_def)

lemma cupsRemoveOption_invalid:
  "nm = None \<or> options = None \<or> num_options < 1 \<Longrightarrow>
     cupsRemoveOption nm num_options options = Inr (num_options, options)"
  by (cases nm; cases options) auto

subsection \<open>Adding an option\<close>

lemma cupsAddOption_invalid:
  "nm = None \<or> nm = Some [] \<or> v = None \<or> options = None \<or> num_options < 0 \<Longrightarrow>
     cupsAddOption nm v num_options options heap = Inr (num_options, options, heap)"
  by (cases nm; cases v; cases options) auto

lemma cupsAddOption_alloc_failure:
  assumes "nm \<noteq> []" "0 \<le> num_options" "nat num_options \<le> length opts"
    "\<forall>t \<in> set (entries num_options opts). strcasecmp (name t) nm \<noteq> 0"
  shows "cupsAddOption (Some nm) (Some v) num_options (Some opts) (False # heap) = Inr (0, Some opts, heap)"
  using assms add_scan_no_match [of "nat num_options" opts nm] by (simp add: entries_def)

lemma cupsAddOption_replace:
  assumes "nm \<noteq> []" "k < nat num_options" "k < length opts"
    "strcasecmp (name (opts ! k)) nm = 0"
    "\<forall>t \<in> set (take k opts). strcasecmp (name t) nm \<noteq> 0"
  shows "cupsAddOption (Some nm) (Some v) num_options (Some opts) heap =
     Inr (num_options, Some (opts[k := (opts ! k)\<lparr>value := v\<rparr>]), heap)"
proof -
  from assms(2) have "\<not> num_options \<le> int k" "\<not> num_options < 0" by linarith+
  then show ?thesis
    using assms add_scan_match [of k "nat num_options" opts nm] by simp
qed

lemma cupsAddOption_Some:
  "cupsAddOption nm v n (Some opts) heap = Inr (n', options', heap') \<Longrightarrow> \<exists>opts'. options' = Some opts'"
  by (cases nm; cases v) (auto split: if_splits sum.splits prod.splits bool.splits)

lemma cupsAddOption_get:
  assumes "nm \<noteq> []" "0 \<le> n" "nat n \<le> length opts" "fst (alloc heap)"
  shows "\<exists>n' opts'. cupsAddOption (Some nm) (Some v) n (Some opts) heap =
            Inr (n', Some opts', snd (alloc heap)) \<and>
          cupsGetOption (Some nm) n' (Some opts') = Inr (Some v) \<or>
         (\<exists>n' opts'. cupsAddOption (Some nm) (Some v) n (Some opts) heap = Inr (n', Some opts', heap) \<and>
          cupsGetOption (Some nm) n' (Some opts') = Inr (Some v))"
proof -
  from assms(3) obtain i where i: "add_scan nm (nat n) opts = Inr i" using add_scan_total by blast
  note f = add_scan_Inr [OF i]
  show ?thesis
  proof (cases "i < nat n")
    case True
    then have ni: "\<not> n \<le> int i" "\<not> n \<le> 0" by linarith+
    let ?o = "opts[i := (opts ! i)\<lparr>value := v\<rparr>]"
    have a: "cupsAddOption (Some nm) (Some v) n (Some opts) heap = Inr (n, Some ?o, heap)"
      using i ni assms(1,2) by simp
    from f True have il: "i < length opts" and m: "strcasecmp (name (opts ! i)) nm = 0"
      and nm: "\<forall>t \<in> set (take i opts). strcasecmp (name t) nm \<noteq> 0" by simp_all
    have "get_scan nm (nat n) ?o = Inr (Some (value (?o ! i)))"
    proof (rule get_scan_first)
      show "i < nat n" by (rule True)
      show "i < length ?o" using il by simp
      show "strcasecmp (name (?o ! i)) nm = 0" using il m by simp
      show "\<forall>t \<in> set (take i ?o). strcasecmp (name t) nm \<noteq> 0" using nm by simp
    qed
    then have "cupsGetOption (Some nm) n (Some ?o) = Inr (Some v)" using ni il by simp
    with a show ?thesis by blast
  next
    case False
    with f have in': "i = nat n" by simp
    then have ge: "n \<le> int i" by simp
    from assms(4) obtain h where al: "alloc heap = (True, h)" by (cases "alloc heap") auto
    then have sh: "snd (alloc heap) = h" by simp
    let ?o = "take (nat n) opts @ [\<lparr>name = nm, value = v\<rparr>]"
    have a: "cupsAddOption (Some nm) (Some v) n (Some opts) heap = Inr (n + 1, Some ?o, snd (alloc heap))"
      unfolding sh using i ge assms(1,2) al by simp
    have "get_scan nm (nat (n + 1)) ?o = Inr (Some (value (?o ! nat n)))"
    proof (rule get_scan_first)
      show "nat n < nat (n + 1)" using assms(2) by linarith
      show "nat n < length ?o" using assms(3) by simp
      show "strcasecmp (name (?o ! nat n)) nm = 0" using assms(3) by (simp add: nth_append strcasecmp_refl)
      show "\<forall>t \<in> set (take (nat n) ?o). strcasecmp (name t) nm \<noteq> 0"
        using f in' assms(3) by simp
    qed
    moreover have "?o ! nat n = \<lparr>name = nm, value = v\<rparr>" using assms(3) by (simp add: nth_append)
    moreover have "\<not> n + 1 \<le> 0" using assms(2) by linarith
    ultimately have "cupsGetOption (Some nm) (n + 1) (Some ?o) = Inr (Some v)" by simp
    with a show ?thesis by blast
  qed
qed

lemma cupsAddOption_get_ok:
  assumes "nm \<noteq> []" "0 \<le> n" "nat n \<le> length opts"
  shows "\<exists>n' opts'. cupsAddOption (Some nm) (Some v) n (Some opts) [] = Inr (n', Some opts', []) \<and>
          cupsGetOption (Some nm) n' (Some opts') = Inr (Some v)"
  using cupsAddOption_get [OF assms, of "[]" v] by auto

subsection \<open>Unfolding the main loop\<close>

lemma parse_loop_Nil: "parse_loop [] n options heap = Inr (n, options, heap)"
  by (simp add: parse_loop.simps)

lemma parse_loop_break:
  "next_option ptr = None \<Longrightarrow> parse_loop ptr n options heap = Inr (n, options, heap)"
  by (simp add: parse_loop.simps)

lemma parse_loop_step:
  "next_option ptr = Some (nm, v, ptr') \<Longrightarrow>
     parse_loop ptr n options heap =
       (case cupsAddOption (Some nm) (Some v) n options heap of
          Inl f \<Rightarrow> Inl f
        | Inr (n', options', heap') \<Rightarrow> parse_loop ptr' n' options' heap')"
  by (subst parse_loop.simps) (auto simp: next_option_def)

lemma cupsParseOptions_invalid:
  "options = None \<or> num_options < 0 \<Longrightarrow>
     cupsParseOptions (Some arg) num_options options heap = Inr (0, options, heap)"
  by auto

subsection \<open>The invariant of the store\<close>

lemma names_distinct_snoc:
  "names_distinct (ss @ [s]) \<longleftrightarrow> names_distinct ss \<and> (\<forall>t \<in> set ss. strcasecmp t s \<noteq> 0)"
  by (induction ss) auto

lemma map_name_update: "map name (opts[i := (opts ! i)\<lparr>value := v\<rparr>]) = map name opts"
  by (induction opts arbitrary: i) (auto split: nat.splits)

lemma remove_first_names:
  "names_distinct (map name ts) \<Longrightarrow> names_distinct (map name (remove_first nm ts))"
proof (induction ts)
  case Nil
  then show ?case by simp
next
  case (Cons t ts)
  then show ?case using set_remove_first [of nm ts] by auto
qed

lemma cupsAddOption_inv:
  assumes inv: "store_inv n opts"
    and add: "cupsAddOption nm v n (Some opts) heap = Inr (n', Some opts', heap')"
  shows "store_inv n' opts'"
proof (cases "nm = None \<or> nm = Some [] \<or> v = None \<or> n < 0")
  case True
  with add inv cupsAddOption_invalid [of nm v "Some opts" n heap] show ?thesis by auto
next
  case False
  then obtain s w where sw: "nm = Some s" "v = Some w" "s \<noteq> []" "0 \<le> n" by auto
  from inv have le: "nat n \<le> length opts" by (simp add: store_inv_def)
  then obtain i where i: "add_scan s (nat n) opts = Inr i" using add_scan_total by blast
  note f = add_scan_Inr [OF i]
  show ?thesis
  proof (cases "i < nat n")
    case True
    then have "\<not> n \<le> int i" by linarith
    with add sw i have "n' = n" "opts' = opts[i := (opts ! i)\<lparr>value := w\<rparr>]" by auto
    moreover have "map name (take (nat n) (opts[i := (opts ! i)\<lparr>value := w\<rparr>])) = map name (take (nat n) opts)"
      by (simp add: take_map [symmetric] map_name_update)
    ultimately show ?thesis using inv by (simp add: store_inv_def entries_def)
  next
    case False
    with f have in': "i = nat n" by simp
    then have ge: "n \<le> int i" by simp
    obtain ok h where al: "alloc heap = (ok, h)" by (cases "alloc heap") auto
    show ?thesis
    proof (cases ok)
      case True
      with al add sw i ge have r: "n' = n + 1" "opts' = take (nat n) opts @ [\<lparr>name = s, value = w\<rparr>]"
        by auto
      have "names_distinct (map name (take (nat n) opts) @ [s])"
        using inv f in' by (simp add: names_distinct_snoc store_inv_def entries_def)
      moreover have "nat (n + 1) = Suc (nat n)" using sw(4) by linarith
      ultimately show ?thesis using r le sw(4) by (simp add: store_inv_def entries_def)
    next
      case False
      with al add sw i ge have "n' = 0" "opts' = opts" by auto
      then show ?thesis by (simp add: store_inv_def entries_def)
    qed
  qed
qed

lemma cupsRemoveOption_inv:
  assumes inv: "store_inv n opts"
    and rm: "cupsRemoveOption nm n (Some opts) = Inr (n', Some opts')"
  shows "store_inv n' opts'"
proof (cases "nm = None \<or> n < 1")
  case True
  with rm inv cupsRemoveOption_invalid [of nm "Some opts" n] show ?thesis by auto
next
  case False
  then obtain s where s: "nm = Some s" "1 \<le> n" by auto
  from inv have wf: "0 \<le> n" "nat n \<le> length opts" by (simp_all add: store_inv_def)
  show ?thesis
  proof (cases "\<exists>t \<in> set (entries n opts). strcasecmp s (name t) = 0")
    case True
    from cupsRemoveOption_found [OF wf True] rm s obtain
      "n' = n - 1" "length opts' = length opts"
      "entries n' opts' = remove_first s (entries n opts)" by auto
    moreover have "nat (n - 1) \<le> length opts" using wf(2) by linarith
    ultimately show ?thesis using inv s(2) by (simp add: store_inv_def remove_first_names)
  next
    case False
    then have "cupsRemoveOption (Some s) n (Some opts) = Inr (n, Some opts)"
      using cupsRemoveOption_not_found [OF wf(2)] by blast
    with rm s inv show ?thesis by simp
  qed
qed

lemma parse_loop_inv:
  "store_inv n opts \<Longrightarrow> parse_loop ptr n (Some opts) heap = Inr (n', Some opts', heap') \<Longrightarrow>
     store_inv n' opts'"
proof (induction ptr n "Some opts" heap arbitrary: opts rule: parse_loop.induct)
  case (1 ptr n heap)
  show ?case
  proof (cases "ptr = []")
    case True
    with "1.prems" show ?thesis by (simp add: parse_loop.simps)
  next
    case False
    show ?thesis
    proof (cases "next_option ptr")
      case None
      with False "1.prems" show ?thesis by (simp add: parse_loop.simps)
    next
      case (Some tok)
      obtain nm v ptr' where tok: "tok = (nm, v, ptr')" by (cases tok) auto
      from Some tok have tk: "next_option ptr = Some (nm, v, ptr')" by simp
      from "1.prems"(2) False Some tok obtain n1 o1 h1 where
        a: "cupsAddOption (Some nm) (Some v) n (Some opts) heap = Inr (n1, o1, h1)"
        and l: "parse_loop ptr' n1 o1 h1 = Inr (n', Some opts', heap')"
        by (subst (asm) parse_loop.simps) (auto split: sum.splits)
      from cupsAddOption_Some [OF a] obtain opts1 where o1: "o1 = Some opts1" by blast
      from cupsAddOption_inv [OF "1.prems"(1) a [unfolded o1]] have "store_inv n1 opts1" .
      from "1.hyps" [OF False tk refl refl a [unfolded o1] refl refl this l [unfolded o1]]
      show ?thesis .
    qed
  qed
qed

lemma cupsParseOptions_inv:
  assumes "store_inv n opts"
    and "cupsParseOptions arg n (Some opts) heap = Inr (n', Some opts', heap')"
  shows "store_inv n' opts'"
proof (cases arg)
  case None
  with assms show ?thesis by simp
next
  case (Some a)
  from assms(1) have "\<not> n < 0" by (simp add: store_inv_def)
  obtain ok h where al: "alloc heap = (ok, h)" by (cases "alloc heap") auto
  show ?thesis
  proof (cases ok)
    case True
    with assms(2) Some al \<open>\<not> n < 0\<close>
    have "parse_loop (dropWhile isspace a) n (Some opts) h = Inr (n', Some opts', heap')" by simp
    from parse_loop_inv [OF assms(1) this] show ?thesis .
  next
    case False
    with assms Some al \<open>\<not> n < 0\<close> show ?thesis by simp
  qed
qed

lemma reachable_inv: "reachable n opts \<Longrightarrow> store_inv n opts"
proof (induction rule: reachable.induct)
  case reachable_empty
  show ?case by (simp add: store_inv_def entries_def)
next
  case (reachable_add n opts nm v heap n' opts' heap')
  then show ?case using cupsAddOption_inv by blast
next
  case (reachable_remove n opts nm n' opts')
  then show ?case using cupsRemoveOption_inv by blast
next
  case (reachable_parse n opts arg heap n' opts' heap')
  then show ?case using cupsParseOptions_inv by blast
qed

subsection \<open>No fault on a reachable store\<close>

lemma cupsAddOption_total:
  assumes "store_inv n opts"
  shows "\<exists>n' opts' heap'. cupsAddOption nm v n (Some opts) heap = Inr (n', Some opts', heap')"
proof -
  from assms have le: "nat n \<le> length opts" by (simp add: store_inv_def)
  show ?thesis
  proof (cases "nm = None \<or> nm = Some [] \<or> v = None \<or> n < 0")
    case True
    then show ?thesis using cupsAddOption_invalid [of nm v "Some opts" n heap] by blast
  next
    case False
    then obtain s w where sw: "nm = Some s" "v = Some w" "s \<noteq> []" "\<not> n < 0" by auto
    from le obtain i where i: "add_scan s (nat n) opts = Inr i" using add_scan_total by blast
    obtain ok h where al: "alloc heap = (ok, h)" by (cases "alloc heap") auto
    show ?thesis using sw i al by (cases ok) auto
  qed
qed

lemma cupsRemoveOption_total:
  assumes "store_inv n opts"
  shows "\<exists>n' opts'. cupsRemoveOption nm n (Some opts) = Inr (n', Some opts')"
proof (cases nm)
  case None
  then show ?thesis by simp
next
  case (Some s)
  from assms have wf: "0 \<le> n" "nat n \<le> length opts" by (simp_all add: store_inv_def)
  show ?thesis
  proof (cases "\<exists>t \<in> set (entries n opts). strcasecmp s (name t) = 0")
    case True
    from cupsRemoveOption_found [OF wf True] Some show ?thesis by blast
  next
    case False
    then show ?thesis using cupsRemoveOption_not_found [OF wf(2), of s] Some by blast
  qed
qed

lemma parse_loop_total:
  "store_inv n opts \<Longrightarrow>
     \<exists>n' opts' heap'. parse_loop ptr n (Some opts) heap = Inr (n', Some opts', heap')"
proof (induction ptr n "Some opts" heap arbitrary: opts rule: parse_loop.induct)
  case (1 ptr n heap)
  show ?case
  proof (cases "ptr = []")
    case True
    then show ?thesis by (simp add: parse_loop_Nil)
  next
    case False
    show ?thesis
    proof (cases "next_option ptr")
      case None
      then show ?thesis by (simp add: parse_loop_break)
    next
      case (Some tok)
      obtain nm v ptr' where tk: "next_option ptr = Some (nm, v, ptr')"
        using Some by (cases tok) auto
      from cupsAddOption_total [OF "1.prems"] obtain n1 opts1 h1 where
        a: "cupsAddOption (Some nm) (Some v) n (Some opts) heap = Inr (n1, Some opts1, h1)"
        by blast
      from cupsAddOption_inv [OF "1.prems" a] have "store_inv n1 opts1" .
      from "1.hyps" [OF False tk refl refl a refl refl this]
      show ?thesis using parse_loop_step [OF tk, of n "Some opts" heap] a by simp
    qed
  qed
qed

lemma cupsParseOptions_total:
  assumes "store_inv n opts"
  shows "\<exists>n' opts' heap'. cupsParseOptions arg n (Some opts) heap = Inr (n', Some opts', heap')"
proof (cases arg)
  case None
  then show ?thesis by simp
next
  case (Some a)
  from assms have "\<not> n < 0" by (simp add: store_inv_def)
  obtain ok h where al: "alloc heap = (ok, h)" by (cases "alloc heap") auto
  show ?thesis
    using parse_loop_total [OF assms, of "dropWhile isspace a" h] Some al \<open>\<not> n < 0\<close>
    by (cases ok) auto
qed

lemma reachable_no_fault:
  assumes "reachable n opts"
  shows "\<exists>r. cupsAddOption nm v n (Some opts) heap = Inr r"
    and "\<exists>r. cupsRemoveOption nm n (Some opts) = Inr r"
    and "\<exists>r. cupsParseOptions arg n (Some opts) heap = Inr r"
proof -
  from assms have inv: "store_inv n opts" by (rule reachable_inv)
  from cupsAddOption_total [OF inv, of nm v heap]
  show "\<exists>r. cupsAddOption nm v n (Some opts) heap = Inr r" by blast
  from cupsRemoveOption_total [OF inv, of nm]
  show "\<exists>r. cupsRemoveOption nm n (Some opts) = Inr r" by blast
  from cupsParseOptions_total [OF inv, of arg heap]
  show "\<exists>r. cupsParseOptions arg n (Some opts) heap = Inr r" by blast
qed

subsection \<open>Tokens\<close>

lemma isspace_not_eq: "\<not> isspace CHR ''=''"
  by (simp add: isspace_def)

lemma name_scan:
  assumes "\<forall>c \<in> set nm. \<not> isspace c \<and> c \<noteq> CHR ''=''"
    and "rest = [] \<or> isspace (hd rest) \<or> hd rest = CHR ''=''"
  shows "takeWhile (\<lambda>c. \<not> isspace c \<and> c \<noteq> CHR ''='') (nm @ rest) = nm"
    and "dropWhile (\<lambda>c. \<not> isspace c \<and> c \<noteq> CHR ''='') (nm @ rest) = rest"
proof -
  let ?P = "\<lambda>c. \<not> isspace c \<and> c \<noteq> CHR ''=''"
  from assms(2) have "takeWhile ?P rest = []" "dropWhile ?P rest = rest"
    by (cases rest; auto)+
  with assms(1) show "takeWhile ?P (nm @ rest) = nm" "dropWhile ?P (nm @ rest) = rest"
    by (simp_all add: takeWhile_append2 dropWhile_append2)
qed

lemma next_option_boolean:
  assumes "nm \<noteq> []" "\<forall>c \<in> set nm. \<not> isspace c \<and> c \<noteq> CHR ''=''"
    and "rest = [] \<or> isspace (hd rest)"
    and "dropWhile isspace rest = [] \<or> hd (dropWhile isspace rest) \<noteq> CHR ''=''"
  shows "next_option (nm @ rest) =
           (if strncasecmp nm ''no'' 2 = 0 then Some (drop 2 nm, ''false'', dropWhile isspace rest)
            else Some (nm, ''true'', dropWhile isspace rest))"
proof -
  from assms(3) have "rest = [] \<or> isspace (hd rest) \<or> hd rest = CHR ''=''" by blast
  note ns = name_scan [OF assms(2) this]
  show ?thesis
    unfolding next_option_def Let_def ns using assms(1,4) by auto
qed

lemma quoted_scan_terminated:
  "\<forall>x \<in> set body. plain_ok quote x \<Longrightarrow> quote \<noteq> CHR 0x5C \<Longrightarrow>
     quoted_scan quote (concat (map encode body) @ quote # rest) = (map decode body, quote # rest)"
proof (induction body)
  case Nil
  then show ?case by simp
next
  case (Cons x body)
  then show ?case by (cases x) auto
qed

lemma quoted_scan_unterminated:
  "\<forall>x \<in> set body. plain_ok quote x \<Longrightarrow> tail = [] \<or> tail = [CHR 0x5C] \<Longrightarrow> quote \<noteq> CHR 0x5C \<Longrightarrow>
     quoted_scan quote (concat (map encode body) @ tail) = (map decode body @ tail, [])"
proof (induction body)
  case Nil
  then show ?case by auto
next
  case (Cons x body)
  then show ?case by (cases x) auto
qed

lemma quoted_forms:
  "\<exists>body. (\<forall>x \<in> set body. plain_ok quote x) \<and>
     ((\<exists>rest. s = concat (map encode body) @ quote # rest) \<or>
      s = concat (map encode body) \<or> s = concat (map encode body) @ [CHR 0x5C])"
proof (induction quote s rule: quoted_scan.induct)
  case (1 quote)
  have "(\<forall>x \<in> set []. plain_ok quote x) \<and> [] = concat (map encode [])" by simp
  then show ?case by blast
next
  case (2 quote c p)
  show ?case
  proof (cases "c = quote")
    case True
    have "(\<forall>x \<in> set []. plain_ok quote x) \<and> c # p = concat (map encode []) @ quote # p"
      using True by simp
    then show ?thesis by blast
  next
    case nq: False
    show ?thesis
    proof (cases "c = CHR 0x5C \<and> p \<noteq> []")
      case True
      then obtain d p' where p: "p = d # p'" by (cases p) auto
      from "2.IH"(1) [OF nq True] p obtain body where b: "\<forall>x \<in> set body. plain_ok quote x"
        "(\<exists>rest. p' = concat (map encode body) @ quote # rest) \<or>
          p' = concat (map encode body) \<or> p' = concat (map encode body) @ [CHR 0x5C]"
        by auto
      let ?b = "Escaped d # body"
      have "\<forall>x \<in> set ?b. plain_ok quote x" using b(1) by simp
      moreover have "(\<exists>rest. c # p = concat (map encode ?b) @ quote # rest) \<or>
          c # p = concat (map encode ?b) \<or> c # p = concat (map encode ?b) @ [CHR 0x5C]"
        using b(2) p True by auto
      ultimately show ?thesis by blast
    next
      case False
      show ?thesis
      proof (cases "c = CHR 0x5C")
        case True
        with False have "p = []" by simp
        then have "(\<forall>x \<in> set []. plain_ok quote x) \<and> c # p = concat (map encode []) @ [CHR 0x5C]"
          using True by simp
        then show ?thesis by blast
      next
        case nb: False
        from "2.IH"(2) [OF nq False] obtain body where b: "\<forall>x \<in> set body. plain_ok quote x"
          "(\<exists>rest. p = concat (map encode body) @ quote # rest) \<or>
            p = concat (map encode body) \<or> p = concat (map encode body) @ [CHR 0x5C]"
          by auto
        let ?b = "Plain c # body"
        have "\<forall>x \<in> set ?b. plain_ok quote x" using b(1) nq nb by simp
        moreover have "(\<exists>rest. c # p = concat (map encode ?b) @ quote # rest) \<or>
            c # p = concat (map encode ?b) \<or> c # p = concat (map encode ?b) @ [CHR 0x5C]"
          using b(2) by auto
        ultimately show ?thesis by blast
      qed
    qed
  qed
qed

lemma next_option_quoted:
  assumes "nm \<noteq> []" "\<forall>c \<in> set nm. \<not> isspace c \<and> c \<noteq> CHR ''=''"
    and "quote = CHR 0x27 \<or> quote = CHR 0x22"
    and "quoted_scan quote text = (v, ptr4)"
  shows "next_option (nm @ CHR ''='' # quote # text) =
           Some (nm, v, dropWhile isspace (if ptr4 \<noteq> [] then tl ptr4 else ptr4))"
proof -
  have "CHR ''='' # quote # text = [] \<or> isspace (hd (CHR ''='' # quote # text)) \<or>
        hd (CHR ''='' # quote # text) = CHR ''=''" by simp
  note ns = name_scan [OF assms(2) this]
  show ?thesis
    unfolding next_option_def Let_def ns using assms(1,3,4) by (auto simp: isspace_not_eq)
qed

section \<open>The claims\<close>

text \<open>
  C1.  The claim: a value that begins with \<open>{\<close> is the text from that brace up to and
  including the matching closing brace, and parsing goes on after it (unless a comma
  follows).  The code starts \<open>depth\<close> at 1 with \<open>ptr\<close> still on the opening brace, which
  the loop counts again, so the matching brace only brings the depth back to 1: in
  \<open>a={b} c=d\<close> the value of \<open>a\<close> runs to the end of the argument and \<open>c=d\<close> is never
  parsed.
\<close>

theorem collection_runs_past_matching_brace:
  "cupsParseOptions (Some ''a={b} c=d'') 0 (Some []) [] =
     Inr (1, Some [\<lparr>name = ''a'', value = ''{b} c=d''\<rparr>], [])"
  by code_simp

text \<open>
  C2, as amended.  \<open>cupsAddOption\<close> and \<open>cupsRemoveOption\<close> return the count and the
  array they were given when the name, the value or the pointer to the array is absent
  or the count is negative.  \<open>cupsParseOptions\<close> does so when the argument string is
  absent; with an argument string, an absent pointer to the array or a negative count
  makes it return 0, the array untouched.
\<close>

theorem invalid_arguments:
  "(nm = None \<or> v = None \<or> options = None \<or> num_options < 0 \<longrightarrow>
      cupsAddOption nm v num_options options heap = Inr (num_options, options, heap)) \<and>
   (nm = None \<or> options = None \<or> num_options < 0 \<longrightarrow>
      cupsRemoveOption nm num_options options = Inr (num_options, options)) \<and>
   cupsParseOptions None num_options options heap = Inr (num_options, options, heap) \<and>
   (options = None \<or> num_options < 0 \<longrightarrow>
      cupsParseOptions (Some arg) num_options options heap = Inr (0, options, heap))"
proof (intro conjI impI)
  assume "nm = None \<or> v = None \<or> options = None \<or> num_options < 0"
  then show "cupsAddOption nm v num_options options heap = Inr (num_options, options, heap)"
    using cupsAddOption_invalid by blast
next
  assume "nm = None \<or> options = None \<or> num_options < 0"
  then have "nm = None \<or> options = None \<or> num_options < 1" by auto
  then show "cupsRemoveOption nm num_options options = Inr (num_options, options)"
    by (rule cupsRemoveOption_invalid)
next
  show "cupsParseOptions None num_options options heap = Inr (num_options, options, heap)"
    by simp
next
  assume "options = None \<or> num_options < 0"
  then show "cupsParseOptions (Some arg) num_options options heap = Inr (0, options, heap)"
    by (rule cupsParseOptions_invalid)
qed

text \<open>The amended C2 at a count of -2.\<close>

theorem invalid_arguments_witness:
  "cupsAddOption (Some ''a'') (Some ''1'') (- 2) (Some []) [] = Inr (- 2, Some [], []) \<and>
   cupsRemoveOption (Some ''a'') (- 2) (Some []) = Inr (- 2, Some []) \<and>
   cupsParseOptions None (- 2) (Some []) [] = Inr (- 2, Some [], []) \<and>
   cupsParseOptions (Some ''a=1'') (- 2) (Some []) [] = Inr (0, Some [], [])"
proof -
  have h: "(- 2 :: int) < 0" by simp
  from invalid_arguments [of "Some ''a''" "Some ''1''" "Some []" "- 2" "[]" "''a=1''"] h
  show ?thesis by blast
qed

text \<open>
  C2 as stated fails for \<open>cupsParseOptions\<close>: given the count -1 it returns 0.
\<close>

theorem parse_invalid_count_counterexample:
  "cupsParseOptions (Some ''a=1'') (- 1) (Some []) [] = Inr (0, Some [], []) \<and>
   cupsParseOptions (Some ''a=1'') (- 1) (Some []) [] \<noteq> Inr (- 1, Some [], [])"
  by simp

text \<open>
  C3.  In every store reachable from the empty one by \<open>cupsAddOption\<close>,
  \<open>cupsRemoveOption\<close> and \<open>cupsParseOptions\<close> the count is within the array and the names
  in use are pairwise different under \<open>strcasecmp\<close>.  Adding a name that the store
  holds, in any letter case, replaces the value in the slot that holds it and returns
  the count unchanged; adding \<open>a\<close> with 1 and then \<open>a\<close> with 2 leaves one entry, \<open>a\<close>
  with 2, and the count 1.
\<close>

theorem names_unique:
  "(reachable n opts \<longrightarrow>
      0 \<le> n \<and> nat n \<le> length opts \<and> names_distinct (map name (entries n opts))) \<and>
   (nm \<noteq> [] \<and> k < nat m \<and> k < length os \<and> strcasecmp (name (os ! k)) nm = 0 \<and>
    (\<forall>t \<in> set (take k os). strcasecmp (name t) nm \<noteq> 0) \<longrightarrow>
      cupsAddOption (Some nm) (Some v) m (Some os) heap =
        Inr (m, Some (os[k := (os ! k)\<lparr>value := v\<rparr>]), heap)) \<and>
   cupsAddOption (Some ''a'') (Some ''1'') 0 (Some []) [] =
     Inr (1, Some [\<lparr>name = ''a'', value = ''1''\<rparr>], []) \<and>
   cupsAddOption (Some ''a'') (Some ''2'') 1 (Some [\<lparr>name = ''a'', value = ''1''\<rparr>]) [] =
     Inr (1, Some [\<lparr>name = ''a'', value = ''2''\<rparr>], [])"
proof (intro conjI impI)
  assume "reachable n opts"
  then have "store_inv n opts" by (rule reachable_inv)
  then show "0 \<le> n" "nat n \<le> length opts" "names_distinct (map name (entries n opts))"
    by (simp_all add: store_inv_def)
next
  assume "nm \<noteq> [] \<and> k < nat m \<and> k < length os \<and> strcasecmp (name (os ! k)) nm = 0 \<and>
    (\<forall>t \<in> set (take k os). strcasecmp (name t) nm \<noteq> 0)"
  then show "cupsAddOption (Some nm) (Some v) m (Some os) heap =
        Inr (m, Some (os[k := (os ! k)\<lparr>value := v\<rparr>]), heap)"
    using cupsAddOption_replace by blast
next
  show "cupsAddOption (Some ''a'') (Some ''1'') 0 (Some []) [] =
     Inr (1, Some [\<lparr>name = ''a'', value = ''1''\<rparr>], [])" by simp
next
  show "cupsAddOption (Some ''a'') (Some ''2'') 1 (Some [\<lparr>name = ''a'', value = ''1''\<rparr>]) [] =
     Inr (1, Some [\<lparr>name = ''a'', value = ''2''\<rparr>], [])" by (simp add: tolower_def)
qed

text \<open>
  C3 at the store built by parsing \<open>Copies=2 b=1\<close> and adding \<open>copies\<close> with 3.
\<close>

theorem names_unique_witness:
  "reachable 2 [\<lparr>name = ''Copies'', value = ''3''\<rparr>, \<lparr>name = ''b'', value = ''1''\<rparr>] \<and>
   names_distinct (map name (entries 2 [\<lparr>name = ''Copies'', value = ''3''\<rparr>, \<lparr>name = ''b'', value = ''1''\<rparr>])) \<and>
   cupsAddOption (Some ''COPIES'') (Some ''4'') 2
       (Some [\<lparr>name = ''Copies'', value = ''3''\<rparr>, \<lparr>name = ''b'', value = ''1''\<rparr>]) [] =
     Inr (2, Some [\<lparr>name = ''Copies'', value = ''4''\<rparr>, \<lparr>name = ''b'', value = ''1''\<rparr>], [])"
proof -
  let ?c2 = "\<lparr>name = ''Copies'', value = ''2''\<rparr>"
  let ?c3 = "\<lparr>name = ''Copies'', value = ''3''\<rparr>"
  let ?b = "\<lparr>name = ''b'', value = ''1''\<rparr>"
  have "cupsParseOptions (Some ''Copies=2 b=1'') 0 (Some []) [] = Inr (2, Some [?c2, ?b], [])"
    by code_simp
  from reachable_parse [OF reachable_empty this] have r1: "reachable 2 [?c2, ?b]" .
  have "cupsAddOption (Some ''copies'') (Some ''3'') 2 (Some [?c2, ?b]) [] = Inr (2, Some [?c3, ?b], [])"
    by code_simp
  from reachable_add [OF r1 this] have r: "reachable 2 [?c3, ?b]" .
  have h: "''COPIES'' \<noteq> [] \<and> 0 < nat 2 \<and> 0 < length [?c3, ?b] \<and>
      strcasecmp (name ([?c3, ?b] ! 0)) ''COPIES'' = 0 \<and>
      (\<forall>t \<in> set (take 0 [?c3, ?b]). strcasecmp (name t) ''COPIES'' \<noteq> 0)"
    by (simp add: tolower_def)
  from names_unique [of 2 "[?c3, ?b]" "''COPIES''" 0 2 "[?c3, ?b]" "''4''" "[]"] r h
  show ?thesis by simp
qed

text \<open>
  C4, as amended.  With the cursor on a name that is followed by the end of the
  argument or by white space and then by something other than \<open>=\<close>, the loop passes to
  \<open>cupsAddOption\<close> the name without its first two characters and \<open>false\<close> when the
  name starts with \<open>no\<close> in any letter case, and otherwise the name and \<open>true\<close>, and
  goes on after the white space with what \<open>cupsAddOption\<close> returned.  When the name
  passed is empty nothing is added.  When it is not, the array holds the slots in use
  and no allocation fails, \<open>cupsGetOption\<close> finds the value under the name after the
  call.
\<close>

theorem boolean_shorthand:
  assumes "nm \<noteq> []" "\<forall>c \<in> set nm. \<not> isspace c \<and> c \<noteq> CHR ''=''"
    and "rest = [] \<or> isspace (hd rest)"
    and "dropWhile isspace rest = [] \<or> hd (dropWhile isspace rest) \<noteq> CHR ''=''"
    and "target = (if map tolower (take 2 nm) = ''no'' then drop 2 nm else nm)"
    and "val = (if map tolower (take 2 nm) = ''no'' then ''false'' else ''true'')"
  shows "parse_loop (nm @ rest) n options heap =
           (case cupsAddOption (Some target) (Some val) n options heap of
              Inl f \<Rightarrow> Inl f
            | Inr (n', options', heap') \<Rightarrow> parse_loop (dropWhile isspace rest) n' options' heap') \<and>
         (target = [] \<longrightarrow>
            parse_loop (nm @ rest) n options heap =
              parse_loop (dropWhile isspace rest) n options heap) \<and>
         (target \<noteq> [] \<and> 0 \<le> n \<and> nat n \<le> length opts \<longrightarrow>
            (\<exists>n' opts'.
               cupsAddOption (Some target) (Some val) n (Some opts) [] = Inr (n', Some opts', []) \<and>
               cupsGetOption (Some target) n' (Some opts') = Inr (Some val)))"
proof -
  have no: "strncasecmp nm ''no'' 2 = 0 \<longleftrightarrow> map tolower (take 2 nm) = ''no''"
    by (simp add: strncasecmp_def strcasecmp_zero_iff tolower_def take_map)
  from no next_option_boolean [OF assms(1-4)] assms(5,6)
  have "next_option (nm @ rest) = Some (target, val, dropWhile isspace rest)" by simp
  from parse_loop_step [OF this]
  have step: "parse_loop (nm @ rest) n options heap =
           (case cupsAddOption (Some target) (Some val) n options heap of
              Inl f \<Rightarrow> Inl f
            | Inr (n', options', heap') \<Rightarrow> parse_loop (dropWhile isspace rest) n' options' heap')" .
  have empty: "parse_loop (nm @ rest) n options heap =
      parse_loop (dropWhile isspace rest) n options heap" if "target = []"
    using step that cupsAddOption_invalid [of "Some target" "Some val" options n heap] by simp
  have stored: "\<exists>n' opts'.
       cupsAddOption (Some target) (Some val) n (Some opts) [] = Inr (n', Some opts', []) \<and>
       cupsGetOption (Some target) n' (Some opts') = Inr (Some val)"
    if "target \<noteq> [] \<and> 0 \<le> n \<and> nat n \<le> length opts"
    using that cupsAddOption_get_ok [of target n opts val] by blast
  from step empty stored show ?thesis by blast
qed

text \<open>The amended C4 on \<open>landscape nocollate\<close>, the example of the claim.\<close>

theorem boolean_shorthand_witness:
  "cupsParseOptions (Some ''landscape nocollate'') 0 (Some []) [] =
     Inr (2, Some [\<lparr>name = ''landscape'', value = ''true''\<rparr>,
                   \<lparr>name = ''collate'', value = ''false''\<rparr>], []) \<and>
   cupsGetOption (Some ''collate'') 2
       (Some [\<lparr>name = ''landscape'', value = ''true''\<rparr>,
              \<lparr>name = ''collate'', value = ''false''\<rparr>]) = Inr (Some ''false'')"
proof -
  let ?l = "\<lparr>name = ''landscape'', value = ''true''\<rparr>"
  let ?c = "\<lparr>name = ''collate'', value = ''false''\<rparr>"
  have 1: "''landscape'' \<noteq> []" "\<forall>c \<in> set ''landscape''. \<not> isspace c \<and> c \<noteq> CHR ''=''"
    "'' nocollate'' = [] \<or> isspace (hd '' nocollate'')"
    "dropWhile isspace '' nocollate'' = [] \<or> hd (dropWhile isspace '' nocollate'') \<noteq> CHR ''=''"
    "''landscape'' = (if map tolower (take 2 ''landscape'') = ''no'' then drop 2 ''landscape''
                      else ''landscape'')"
    "''true'' = (if map tolower (take 2 ''landscape'') = ''no'' then ''false'' else ''true'')"
    by (simp_all add: isspace_def tolower_def)
  have 2: "''nocollate'' \<noteq> []" "\<forall>c \<in> set ''nocollate''. \<not> isspace c \<and> c \<noteq> CHR ''=''"
    "[] = [] \<or> isspace (hd [])"
    "dropWhile isspace [] = [] \<or> hd (dropWhile isspace []) \<noteq> CHR ''=''"
    "''collate'' = (if map tolower (take 2 ''nocollate'') = ''no'' then drop 2 ''nocollate''
                    else ''nocollate'')"
    "''false'' = (if map tolower (take 2 ''nocollate'') = ''no'' then ''false'' else ''true'')"
    by (simp_all add: isspace_def tolower_def)
  have s1: "parse_loop ''landscape nocollate'' 0 (Some []) [] = parse_loop ''nocollate'' 1 (Some [?l]) []"
    using boolean_shorthand [OF 1, of 0 "Some []" "[]" "[]"] by (simp add: isspace_def)
  have s2: "parse_loop ''nocollate'' 1 (Some [?l]) [] = Inr (2, Some [?l, ?c], []) \<and>
      cupsGetOption (Some ''collate'') 2 (Some [?l, ?c]) = Inr (Some ''false'')"
    using boolean_shorthand [OF 2, of 1 "Some [?l]" "[]" "[?l]"]
    by (simp add: tolower_def parse_loop_Nil)
  show ?thesis using s1 s2 by (simp add: isspace_def)
qed

text \<open>
  C4 as stated fails on the bare name \<open>no\<close>: the claim has the pair of the empty name
  and \<open>false\<close> added to the store, and the store stays empty.
\<close>

theorem bare_no_counterexample:
  "cupsParseOptions (Some ''no'') 0 (Some []) [] = Inr (0, Some [], []) \<and>
   cupsParseOptions (Some ''no'') 0 (Some []) [] \<noteq>
     Inr (1, Some [\<lparr>name = [], value = ''false''\<rparr>], [])"
  by code_simp

text \<open>
  C5, as amended.  When \<open>cupsAddOption\<close> has to grow the array (the name is not empty and
  matches no entry in use) and the allocation fails, it returns 0, whatever count it
  was given, and leaves the array as it was.
\<close>

theorem add_allocation_failure:
  assumes "nm \<noteq> []" "0 \<le> num_options" "nat num_options \<le> length opts"
    and "\<forall>t \<in> set (entries num_options opts). strcasecmp (name t) nm \<noteq> 0"
  shows "cupsAddOption (Some nm) (Some v) num_options (Some opts) (False # heap) =
           Inr (0, Some opts, heap)"
  using assms by (rule cupsAddOption_alloc_failure)

text \<open>The amended C5 on a store of two entries.\<close>

theorem add_allocation_failure_witness:
  "cupsAddOption (Some ''c'') (Some ''3'') 2
      (Some [\<lparr>name = ''a'', value = ''1''\<rparr>, \<lparr>name = ''b'', value = ''2''\<rparr>]) [False, True] =
    Inr (0, Some [\<lparr>name = ''a'', value = ''1''\<rparr>, \<lparr>name = ''b'', value = ''2''\<rparr>], [True])"
proof -
  let ?os = "[\<lparr>name = ''a'', value = ''1''\<rparr>, \<lparr>name = ''b'', value = ''2''\<rparr>]"
  have 1: "''c'' \<noteq> []" by simp
  have 2: "(0::int) \<le> 2" by simp
  have 3: "nat 2 \<le> length ?os" by simp
  have 4: "\<forall>t \<in> set (entries 2 ?os). strcasecmp (name t) ''c'' \<noteq> 0"
    by (simp add: entries_def tolower_def)
  from add_allocation_failure [OF 1 2 3 4] show ?thesis .
qed

text \<open>
  C5 as stated fails: with one entry in the store and a failing allocation the call
  returns 0, not the count 1 it was given.
\<close>

theorem add_allocation_failure_counterexample:
  "cupsAddOption (Some ''b'') (Some ''2'') 1 (Some [\<lparr>name = ''a'', value = ''1''\<rparr>]) [False] =
     Inr (0, Some [\<lparr>name = ''a'', value = ''1''\<rparr>], []) \<and>
   cupsAddOption (Some ''b'') (Some ''2'') 1 (Some [\<lparr>name = ''a'', value = ''1''\<rparr>]) [False] \<noteq>
     Inr (1, Some [\<lparr>name = ''a'', value = ''1''\<rparr>], [])"
  by (simp add: tolower_def)

text \<open>
  C6.  With the cursor on a name, \<open>=\<close>, a single or double quote, a text without a
  bare quote, and the closing quote, the loop passes the name and the text with every
  backslash-character pair replaced by the character to \<open>cupsAddOption\<close>, and goes on
  after the closing quote and the white space that follows it.
\<close>

theorem quoted_value:
  assumes "nm \<noteq> []" "\<forall>c \<in> set nm. \<not> isspace c \<and> c \<noteq> CHR ''=''"
    and "quote = CHR 0x27 \<or> quote = CHR 0x22"
    and "\<forall>x \<in> set body. plain_ok quote x"
  shows "parse_loop (nm @ CHR ''='' # quote # concat (map encode body) @ quote # rest) n options heap =
           (case cupsAddOption (Some nm) (Some (map decode body)) n options heap of
              Inl f \<Rightarrow> Inl f
            | Inr (n', options', heap') \<Rightarrow> parse_loop (dropWhile isspace rest) n' options' heap')"
proof -
  from assms(3) have nb: "quote \<noteq> CHR 0x5C" by auto
  from next_option_quoted [OF assms(1-3) quoted_scan_terminated [OF assms(4) nb]]
  have "next_option (nm @ CHR ''='' # quote # concat (map encode body) @ quote # rest) =
          Some (nm, map decode body, dropWhile isspace rest)" by simp
  from parse_loop_step [OF this] show ?thesis .
qed

text \<open>
  C6 on the example of the claim: the value \<open>a "b" c\<close>, its inner quotes escaped.
\<close>

theorem quoted_value_witness:
  "cupsParseOptions
     (Some (''name='' @ [CHR 0x22] @ ''a '' @ [CHR 0x5C, CHR 0x22] @ ''b'' @ [CHR 0x5C, CHR 0x22] @
            '' c'' @ [CHR 0x22]))
     0 (Some []) [] =
   Inr (1, Some [\<lparr>name = ''name'', value = ''a '' @ [CHR 0x22] @ ''b'' @ [CHR 0x22] @ '' c''\<rparr>], [])"
proof -
  let ?body = "[Plain CHR ''a'', Plain CHR '' '', Escaped CHR 0x22, Plain CHR ''b'',
                Escaped CHR 0x22, Plain CHR '' '', Plain CHR ''c'']"
  have h: "''name'' \<noteq> []" "\<forall>c \<in> set ''name''. \<not> isspace c \<and> c \<noteq> CHR ''=''"
    "CHR 0x22 = CHR 0x27 \<or> CHR 0x22 = CHR 0x22"
    "\<forall>x \<in> set ?body. plain_ok CHR 0x22 x"
    by (simp_all add: isspace_def)
  from quoted_value [OF h, of "[]" 0 "Some []" "[]"]
  show ?thesis by (simp add: isspace_def parse_loop_Nil)
qed

text \<open>
  C7.  On an array that holds the \<open>num_options\<close> slots in use: when a name in use
  matches, \<open>cupsRemoveOption\<close> returns the count less one and the entries are the former
  ones without the first match, in their order; when none matches it returns the count
  and the array as they were.  It does the same on an absent name, an absent pointer and
  a count below 1.  Adding \<open>a\<close>, \<open>b\<close>, \<open>c\<close> and removing \<open>b\<close> leaves \<open>a\<close>, \<open>c\<close>.
\<close>

theorem remove_compacts:
  "(0 \<le> num_options \<and> nat num_options \<le> length opts \<longrightarrow>
      ((\<exists>t \<in> set (entries num_options opts). strcasecmp nm (name t) = 0) \<longrightarrow>
         (\<exists>opts'. cupsRemoveOption (Some nm) num_options (Some opts) =
                     Inr (num_options - 1, Some opts') \<and>
                   entries (num_options - 1) opts' = remove_first nm (entries num_options opts))) \<and>
      ((\<forall>t \<in> set (entries num_options opts). strcasecmp nm (name t) \<noteq> 0) \<longrightarrow>
         cupsRemoveOption (Some nm) num_options (Some opts) = Inr (num_options, Some opts))) \<and>
   (nm' = None \<or> options = None \<or> n < 1 \<longrightarrow>
      cupsRemoveOption nm' n options = Inr (n, options)) \<and>
   cupsAddOption (Some ''a'') (Some ''1'') 0 (Some []) [] =
     Inr (1, Some [\<lparr>name = ''a'', value = ''1''\<rparr>], []) \<and>
   cupsAddOption (Some ''b'') (Some ''2'') 1 (Some [\<lparr>name = ''a'', value = ''1''\<rparr>]) [] =
     Inr (2, Some [\<lparr>name = ''a'', value = ''1''\<rparr>, \<lparr>name = ''b'', value = ''2''\<rparr>], []) \<and>
   cupsAddOption (Some ''c'') (Some ''3'') 2
       (Some [\<lparr>name = ''a'', value = ''1''\<rparr>, \<lparr>name = ''b'', value = ''2''\<rparr>]) [] =
     Inr (3, Some [\<lparr>name = ''a'', value = ''1''\<rparr>, \<lparr>name = ''b'', value = ''2''\<rparr>,
                   \<lparr>name = ''c'', value = ''3''\<rparr>], []) \<and>
   cupsRemoveOption (Some ''b'') 3
       (Some [\<lparr>name = ''a'', value = ''1''\<rparr>, \<lparr>name = ''b'', value = ''2''\<rparr>,
              \<lparr>name = ''c'', value = ''3''\<rparr>]) =
     Inr (2, Some [\<lparr>name = ''a'', value = ''1''\<rparr>, \<lparr>name = ''c'', value = ''3''\<rparr>,
                   \<lparr>name = ''c'', value = ''3''\<rparr>]) \<and>
   entries 2 [\<lparr>name = ''a'', value = ''1''\<rparr>, \<lparr>name = ''c'', value = ''3''\<rparr>,
              \<lparr>name = ''c'', value = ''3''\<rparr>] =
     [\<lparr>name = ''a'', value = ''1''\<rparr>, \<lparr>name = ''c'', value = ''3''\<rparr>]"
proof (intro conjI impI)
  assume "\<exists>t \<in> set (entries num_options opts). strcasecmp nm (name t) = 0"
    and "0 \<le> num_options \<and> nat num_options \<le> length opts"
  then show "\<exists>opts'. cupsRemoveOption (Some nm) num_options (Some opts) =
                     Inr (num_options - 1, Some opts') \<and>
                   entries (num_options - 1) opts' = remove_first nm (entries num_options opts)"
    using cupsRemoveOption_found [of num_options opts nm] by blast
next
  assume "\<forall>t \<in> set (entries num_options opts). strcasecmp nm (name t) \<noteq> 0"
    and "0 \<le> num_options \<and> nat num_options \<le> length opts"
  then show "cupsRemoveOption (Some nm) num_options (Some opts) = Inr (num_options, Some opts)"
    using cupsRemoveOption_not_found by blast
next
  assume "nm' = None \<or> options = None \<or> n < 1"
  then show "cupsRemoveOption nm' n options = Inr (n, options)"
    by (rule cupsRemoveOption_invalid)
qed (code_simp+)

text \<open>C7 on the three entries of the example, the name given in upper case.\<close>

theorem remove_compacts_witness:
  "\<exists>opts'. cupsRemoveOption (Some ''B'') 3
       (Some [\<lparr>name = ''a'', value = ''1''\<rparr>, \<lparr>name = ''b'', value = ''2''\<rparr>,
              \<lparr>name = ''c'', value = ''3''\<rparr>]) = Inr (2, Some opts') \<and>
     entries 2 opts' = [\<lparr>name = ''a'', value = ''1''\<rparr>, \<lparr>name = ''c'', value = ''3''\<rparr>]"
proof -
  let ?os = "[\<lparr>name = ''a'', value = ''1''\<rparr>, \<lparr>name = ''b'', value = ''2''\<rparr>,
              \<lparr>name = ''c'', value = ''3''\<rparr>]"
  have wf: "(0::int) \<le> 3 \<and> nat 3 \<le> length ?os" by simp
  have found: "\<exists>t \<in> set (entries 3 ?os). strcasecmp ''B'' (name t) = 0"
    by (simp add: entries_def tolower_def)
  have rf: "remove_first ''B'' (entries 3 ?os) =
      [\<lparr>name = ''a'', value = ''1''\<rparr>, \<lparr>name = ''c'', value = ''3''\<rparr>]"
    by (simp add: entries_def tolower_def)
  from remove_compacts [of 3 ?os "''B''" None None 0] wf found
  have "\<exists>opts'. cupsRemoveOption (Some ''B'') 3 (Some ?os) = Inr (3 - 1, Some opts') \<and>
          entries (3 - 1) opts' = remove_first ''B'' (entries 3 ?os)"
    by blast
  then show ?thesis by (simp add: rf)
qed

text \<open>
  C8.  With the cursor on a name, \<open>=\<close>, a quote and a text that ends without a bare
  quote (its last character may be a lone backslash), on a store whose array holds the
  slots in use: the loop returns what \<open>cupsAddOption\<close> returns for the name and the text
  with its escapes collapsed, that is a result and no fault, and when no allocation
  fails \<open>cupsGetOption\<close> then finds that value under the name.
\<close>

theorem unterminated_quote:
  assumes "nm \<noteq> []" "\<forall>c \<in> set nm. \<not> isspace c \<and> c \<noteq> CHR ''=''"
    and "quote = CHR 0x27 \<or> quote = CHR 0x22"
    and "\<forall>x \<in> set body. plain_ok quote x"
    and "tail = [] \<or> tail = [CHR 0x5C]"
    and "0 \<le> n" "nat n \<le> length opts"
  shows "parse_loop (nm @ CHR ''='' # quote # concat (map encode body) @ tail) n (Some opts) heap =
           cupsAddOption (Some nm) (Some (map decode body @ tail)) n (Some opts) heap \<and>
         (\<exists>r. parse_loop (nm @ CHR ''='' # quote # concat (map encode body) @ tail) n (Some opts) heap =
                 Inr r) \<and>
         (\<exists>n' opts'.
            parse_loop (nm @ CHR ''='' # quote # concat (map encode body) @ tail) n (Some opts) [] =
              Inr (n', Some opts', []) \<and>
            cupsGetOption (Some nm) n' (Some opts') = Inr (Some (map decode body @ tail)))"
proof -
  from assms(3) have nb: "quote \<noteq> CHR 0x5C" by auto
  from next_option_quoted [OF assms(1-3) quoted_scan_unterminated [OF assms(4,5) nb]]
  have "next_option (nm @ CHR ''='' # quote # concat (map encode body) @ tail) =
          Some (nm, map decode body @ tail, [])" by simp
  from parse_loop_step [OF this]
  have eq: "parse_loop (nm @ CHR ''='' # quote # concat (map encode body) @ tail) n (Some opts) h =
           cupsAddOption (Some nm) (Some (map decode body @ tail)) n (Some opts) h" for h
    by (simp add: parse_loop_Nil split: sum.splits)
  from add_scan_total [OF assms(7), of nm]
  have "\<exists>r. cupsAddOption (Some nm) (Some (map decode body @ tail)) n (Some opts) heap = Inr r"
    by (auto split: prod.splits bool.splits)
  moreover note cupsAddOption_get_ok [OF assms(1,6,7), of "map decode body @ tail"]
  ultimately show ?thesis by (simp add: eq)
qed

text \<open>C8 on the example of the claim: \<open>name="abc\<close> with no closing quote.\<close>

theorem unterminated_quote_witness:
  "cupsParseOptions (Some (''name='' @ [CHR 0x22] @ ''abc'')) 0 (Some []) [] =
     Inr (1, Some [\<lparr>name = ''name'', value = ''abc''\<rparr>], [])"
proof -
  let ?body = "[Plain CHR ''a'', Plain CHR ''b'', Plain CHR ''c'']"
  have h: "''name'' \<noteq> []" "\<forall>c \<in> set ''name''. \<not> isspace c \<and> c \<noteq> CHR ''=''"
    "CHR 0x22 = CHR 0x27 \<or> CHR 0x22 = CHR 0x22"
    "\<forall>x \<in> set ?body. plain_ok CHR 0x22 x"
    "[] = [] \<or> [] = [CHR 0x5C]" "(0::int) \<le> 0" "nat 0 \<le> length ([]::cups_option_t list)"
    by (simp_all add: isspace_def)
  from unterminated_quote [OF h, of "[]"]
  show ?thesis by (simp add: isspace_def)
qed

text \<open>
  C9.  With the cursor on \<open>=\<close> or on white space the name is empty, and the loop returns
  the count, the array and the allocator as they are.  Parsing \<open>a=1 =x b=2\<close> adds the
  pair of \<open>a\<close> and 1 and nothing else.
\<close>

theorem empty_name_stops:
  "(ptr \<noteq> [] \<and> (isspace (hd ptr) \<or> hd ptr = CHR ''='') \<longrightarrow>
      parse_loop ptr n options heap = Inr (n, options, heap)) \<and>
   cupsParseOptions (Some ''a=1 =x b=2'') 0 (Some []) [] =
     Inr (1, Some [\<lparr>name = ''a'', value = ''1''\<rparr>], [])"
proof (intro conjI impI)
  assume a: "ptr \<noteq> [] \<and> (isspace (hd ptr) \<or> hd ptr = CHR ''='')"
  then obtain c p where p: "ptr = c # p" by (cases ptr) auto
  with a have "next_option ptr = None" by (auto simp: next_option_def)
  then show "parse_loop ptr n options heap = Inr (n, options, heap)" by (rule parse_loop_break)
next
  show "cupsParseOptions (Some ''a=1 =x b=2'') 0 (Some []) [] =
     Inr (1, Some [\<lparr>name = ''a'', value = ''1''\<rparr>], [])" by code_simp
qed

text \<open>C9 with the cursor on \<open>=x b=2\<close>, after the first pair of the example.\<close>

theorem empty_name_stops_witness:
  "parse_loop ''=x b=2'' 1 (Some [\<lparr>name = ''a'', value = ''1''\<rparr>]) [] =
     Inr (1, Some [\<lparr>name = ''a'', value = ''1''\<rparr>], [])"
proof -
  have "''=x b=2'' \<noteq> [] \<and> (isspace (hd ''=x b=2'') \<or> hd ''=x b=2'' = CHR ''='')" by simp
  with empty_name_stops [of "''=x b=2''" 1 "Some [\<lparr>name = ''a'', value = ''1''\<rparr>]" "[]"]
  show ?thesis by blast
qed

text \<open>
  C10.  Parsing an argument that is \<open>no\<close> in any letter case returns the count and the
  array it was given, for every count that is not negative.
\<close>

theorem bare_no_ignored:
  assumes "0 \<le> n" "map tolower arg = ''no''"
  shows "cupsParseOptions (Some arg) n (Some opts) heap = Inr (n, Some opts, snd (alloc heap))"
proof -
  from assms(2) obtain a b where ab: "arg = [a, b]" "tolower a = CHR ''n''" "tolower b = CHR ''o''"
    by (cases arg; cases "tl arg") auto
  then have nc: "arg \<noteq> []" "\<forall>c \<in> set arg. \<not> isspace c \<and> c \<noteq> CHR ''=''"
    by (auto simp: tolower_n tolower_o isspace_def)
  have e: "([]::string) = [] \<or> isspace (hd [])"
    "dropWhile isspace [] = [] \<or> hd (dropWhile isspace []) \<noteq> CHR ''=''" by simp_all
  have no: "strncasecmp arg ''no'' 2 = 0"
    using assms(2) ab(1) by (simp add: strncasecmp_def strcasecmp_zero_iff tolower_def)
  from next_option_boolean [OF nc e] no ab(1)
  have "next_option arg = Some ([], ''false'', [])" by simp
  from parse_loop_step [OF this]
  have l: "parse_loop arg n (Some opts) h = Inr (n, Some opts, h)" for h
    by (simp add: parse_loop_Nil)
  have dw: "dropWhile isspace arg = arg" using nc ab(1) by simp
  obtain ok h where al: "alloc heap = (ok, h)" by (cases "alloc heap") auto
  show ?thesis using assms(1) al l dw by (cases ok) auto
qed

text \<open>C10 on \<open>No\<close> and a store of one entry.\<close>

theorem bare_no_ignored_witness:
  "cupsParseOptions (Some ''No'') 1 (Some [\<lparr>name = ''a'', value = ''1''\<rparr>]) [] =
     Inr (1, Some [\<lparr>name = ''a'', value = ''1''\<rparr>], [])"
proof -
  have h: "(0::int) \<le> 1" "map tolower ''No'' = ''no''" by (simp_all add: tolower_def)
  from bare_no_ignored [OF h, of "[\<lparr>name = ''a'', value = ''1''\<rparr>]" "[]"]
  show ?thesis by simp
qed

end
